theory Spec2Isabelle
  imports Main "HOL-Library.Multiset" "HOL-Library.FSet"
begin

section \<open>Block log events (wiki\_interface/block\_utils.py)\<close>

text \<open>
  A Python \<open>datetime\<close> is modelled by the instant it denotes: an integer number of
  microseconds counted from \<open>datetime.min\<close> at UTC, which is the module constant
  \<open>utc_min\<close>. All timestamps are taken to be timezone-aware, as the ones the module
  builds are, so that every comparison between two of them is defined.
\<close>

type_synonym datetime = int

definition utc_min :: datetime where
  "utc_min = 0"

datatype error = ValueError | TypeError | IndexError | ArchiveError

text \<open>
  The two frozen dataclasses below \<open>BaseBlockEvent\<close>. The field \<open>id\<close> of the source is
  \<open>event_id\<close> here; \<open>expiry = None\<close> is an indefinite block.
\<close>

datatype event =
    is_BlockEvent: BlockEvent (target: string) (timestamp: datetime) (event_id: int)
      (expiry: "datetime option") (is_reblock: bool)
  | is_UnblockEvent: UnblockEvent (target: string) (timestamp: datetime) (event_id: int)

text \<open>
  \<open>BlockEvent.__post_init__\<close>: \<open>if self.expiry and self.expiry < self.timestamp: raise ValueError\<close>.
  \<open>None\<close> is falsy and every datetime is truthy.
\<close>

definition BlockEvent_post_init :: "event \<Rightarrow> error + unit" where
  "BlockEvent_post_init self =
     (case expiry self of
        None \<Rightarrow> Inr ()
      | Some e \<Rightarrow> if e < timestamp self then Inl ValueError else Inr ())"

text \<open>
  Calling the class \<open>BlockEvent(target, timestamp, id, expiry, is_reblock)\<close>: the
  \<open>__init__\<close> that \<open>@dataclass\<close> generates stores the fields and then runs
  \<open>__post_init__\<close>.
\<close>

definition BlockEvent_new ::
  "string \<Rightarrow> datetime \<Rightarrow> int \<Rightarrow> datetime option \<Rightarrow> bool \<Rightarrow> error + event" where
  "BlockEvent_new tg ts i ex rb =
     (let self = BlockEvent tg ts i ex rb
      in case BlockEvent_post_init self of Inl e \<Rightarrow> Inl e | Inr _ \<Rightarrow> Inr self)"

text \<open>
  \<open>BlockEvent.__lt__\<close> compares timestamps and reads only \<open>other.timestamp\<close>, so the
  right operand may be of either class. \<open>UnblockEvent\<close> defines no ordering method and
  neither class defines \<open>__gt__\<close>: with an \<open>UnblockEvent\<close> on the left, \<open>object.__lt__\<close>
  and the reflected \<open>__gt__\<close> both answer \<open>NotImplemented\<close>, and \<open><\<close> raises
  \<open>TypeError\<close>.
\<close>

fun event_lt :: "event \<Rightarrow> event \<Rightarrow> error + bool" where
  "event_lt (BlockEvent tg ts i ex rb) other = Inr (ts < timestamp other)"
| "event_lt (UnblockEvent tg ts i) other = Inl TypeError"

subsection \<open>UserBlockHistory\<close>

record UserBlockHistory =
  events :: "event list"

text \<open>
  The hand-written \<open>__init__\<close>: \<open>self.events = sorted(unordered_events, key=lambda e: e.timestamp)\<close>.
  Python's \<open>sorted\<close> is stable, as \<open>sort_key\<close> is.
\<close>

definition UserBlockHistory_init :: "event list \<Rightarrow> UserBlockHistory" where
  "UserBlockHistory_init unordered_events = \<lparr>events = sort_key timestamp unordered_events\<rparr>"

text \<open>
  The loop of \<open>UserBlockHistory.__post_init__\<close>, with \<open>previous_timestamp\<close> as the
  accumulator. Both classes of the model pass the \<open>isinstance\<close> test.
\<close>

fun post_init_loop :: "datetime \<Rightarrow> event list \<Rightarrow> error + unit" where
  "post_init_loop previous_timestamp [] = Inr ()"
| "post_init_loop previous_timestamp (event # rest) =
     (if \<not> (is_BlockEvent event \<or> is_UnblockEvent event) then Inl ValueError
      else if timestamp event \<le> previous_timestamp then Inl ValueError
      else post_init_loop (timestamp event) rest)"

definition UserBlockHistory_post_init :: "UserBlockHistory \<Rightarrow> error + unit" where
  "UserBlockHistory_post_init self = post_init_loop utc_min (events self)"

text \<open>
  Calling the class \<open>UserBlockHistory(unordered_events)\<close>. \<open>@dataclass\<close> never replaces
  an \<open>__init__\<close> that the class body defines, and \<open>__post_init__\<close> is called only from
  the \<open>__init__\<close> that \<open>@dataclass\<close> would have generated. So the call runs the
  hand-written \<open>__init__\<close> alone: \<open>UserBlockHistory_post_init\<close> is never reached.
\<close>

definition UserBlockHistory_new :: "event list \<Rightarrow> error + UserBlockHistory" where
  "UserBlockHistory_new unordered_events = Inr (UserBlockHistory_init unordered_events)"

text \<open>
  \<open>is_blocked_at\<close>: the \<open>for\<close> loop with its \<open>break\<close>, \<open>is_blocked\<close> as the accumulator.
\<close>

fun is_blocked_at_loop :: "bool \<Rightarrow> event list \<Rightarrow> datetime \<Rightarrow> bool" where
  "is_blocked_at_loop is_blocked [] t = is_blocked"
| "is_blocked_at_loop is_blocked (event # rest) t =
     (if timestamp event > t then is_blocked
      else is_blocked_at_loop (is_BlockEvent event) rest t)"

definition is_blocked_at :: "UserBlockHistory \<Rightarrow> datetime \<Rightarrow> bool" where
  "is_blocked_at self t = is_blocked_at_loop False (events self) t"

text \<open>
  The same event with another expiry, for stating that a function does not read the
  expiry: \<open>f\<close> gives the new expiry of each block.
\<close>

fun set_expiry :: "(event \<Rightarrow> datetime option) \<Rightarrow> event \<Rightarrow> event" where
  "set_expiry f (BlockEvent tg ts i ex rb) = BlockEvent tg ts i (f (BlockEvent tg ts i ex rb)) rb"
| "set_expiry f (UnblockEvent tg ts i) = UnblockEvent tg ts i"

section \<open>Merging block logs (wiki\_interface/wiki.py and the library's heapq.merge)\<close>

text \<open>
  \<open>multi_user_blocks\<close> hands the per-user lists to \<open>heapq.merge(*blocks, reverse=True)\<close>.
  The library's merge keeps one heap entry \<open>[value, order, next]\<close> for each non-empty
  input: the current head, the negated index of the input, and the rest of the input.
\<close>

type_synonym entry = "event \<times> int \<times> event list"

text \<open>
  Entries are Python lists, compared lexicographically: the first position where the
  two differ by \<open>==\<close> is compared with \<open><\<close>. Events are frozen dataclasses, equal
  when they are of one class with equal fields. The orders of two entries of one heap
  always differ; were they equal, the comparison would reach the two iterator methods
  and raise.
\<close>

fun entry_lt :: "entry \<Rightarrow> entry \<Rightarrow> error + bool" where
  "entry_lt (v1, o1, r1) (v2, o2, r2) =
     (if v1 \<noteq> v2 then event_lt v1 v2
      else if o1 \<noteq> o2 then Inr (o1 < o2)
      else Inl TypeError)"

text \<open>
  \<open>_siftdown_max(heap, startpos, pos)\<close>: the \<open>while pos > startpos\<close> loop, which moves
  parents down while \<open>parent < newitem\<close>, and the final \<open>heap[pos] = newitem\<close>.
\<close>

function siftdown_max_loop :: "entry list \<Rightarrow> nat \<Rightarrow> nat \<Rightarrow> entry \<Rightarrow> error + entry list" where
  "siftdown_max_loop heap startpos pos newitem =
     (if pos > startpos then
        (let parentpos = (pos - 1) div 2;
             parent = heap ! parentpos
         in case entry_lt parent newitem of
              Inl e \<Rightarrow> Inl e
            | Inr b \<Rightarrow>
                if b then siftdown_max_loop (heap[pos := parent]) startpos parentpos newitem
                else Inr (heap[pos := newitem]))
      else Inr (heap[pos := newitem]))"
  by pat_completeness auto
termination
  by (relation "measure (\<lambda>(heap, startpos, pos, newitem). pos)") auto

definition siftdown_max :: "entry list \<Rightarrow> nat \<Rightarrow> nat \<Rightarrow> error + entry list" where
  "siftdown_max heap startpos pos = siftdown_max_loop heap startpos pos (heap ! pos)"

text \<open>
  In \<open>_siftup_max\<close>: \<open>if rightpos < endpos and not heap[rightpos] < heap[childpos]: childpos = rightpos\<close>.
\<close>

definition larger_child :: "entry list \<Rightarrow> nat \<Rightarrow> error + nat" where
  "larger_child heap childpos =
     (let rightpos = childpos + 1
      in if rightpos < length heap then
           (case entry_lt (heap ! rightpos) (heap ! childpos) of
              Inl e \<Rightarrow> Inl e
            | Inr b \<Rightarrow> Inr (if \<not> b then rightpos else childpos))
         else Inr childpos)"

lemma larger_child_ge: "larger_child heap childpos = Inr c \<Longrightarrow> childpos \<le> c"
  by (auto simp: larger_child_def Let_def split: if_splits sum.splits)

text \<open>
  The \<open>while childpos < endpos\<close> loop of \<open>_siftup_max\<close>, which moves the larger child
  up until a leaf is reached; it returns the heap and the position of the leaf.
\<close>

function siftup_max_loop :: "entry list \<Rightarrow> nat \<Rightarrow> nat \<Rightarrow> error + entry list \<times> nat" where
  "siftup_max_loop heap pos childpos =
     (if childpos < length heap then
        (case larger_child heap childpos of
           Inl e \<Rightarrow> Inl e
         | Inr c \<Rightarrow> siftup_max_loop (heap[pos := heap ! c]) c (2 * c + 1))
      else Inr (heap, pos))"
  by pat_completeness auto
termination
  by (relation "measure (\<lambda>(heap, pos, childpos). length heap - childpos)")
     (auto dest: larger_child_ge)

definition siftup_max :: "entry list \<Rightarrow> nat \<Rightarrow> error + entry list" where
  "siftup_max heap pos =
     (let newitem = heap ! pos
      in case siftup_max_loop heap pos (2 * pos + 1) of
           Inl e \<Rightarrow> Inl e
         | Inr (heap', pos') \<Rightarrow> siftdown_max (heap'[pos' := newitem]) pos pos')"

text \<open>\<open>_heapify_max(x)\<close>: \<open>for i in reversed(range(n//2)): _siftup_max(x, i)\<close>.\<close>

fun heapify_max_loop :: "entry list \<Rightarrow> nat list \<Rightarrow> error + entry list" where
  "heapify_max_loop x [] = Inr x"
| "heapify_max_loop x (i # is) =
     (case siftup_max x i of Inl e \<Rightarrow> Inl e | Inr x' \<Rightarrow> heapify_max_loop x' is)"

definition heapify_max :: "entry list \<Rightarrow> error + entry list" where
  "heapify_max x = heapify_max_loop x (rev [0 ..< length x div 2])"

text \<open>
  \<open>_heappop_max(heap)\<close> and \<open>_heapreplace_max(heap, item)\<close>; the merge drops the item
  they return, so the model returns the heap only.
\<close>

definition heappop_max :: "entry list \<Rightarrow> error + entry list" where
  "heappop_max heap =
     (if heap = [] then Inl IndexError
      else let lastelt = last heap; heap' = butlast heap
           in if heap' \<noteq> [] then siftup_max (heap'[0 := lastelt]) 0 else Inr heap')"

definition heapreplace_max :: "entry list \<Rightarrow> entry \<Rightarrow> error + entry list" where
  "heapreplace_max heap item =
     (if heap = [] then Inl IndexError else siftup_max (heap[0 := item]) 0)"

text \<open>
  The first loop of \<open>merge\<close>: \<open>h_append([next(), order * direction, next])\<close> for each
  input that is not empty, with \<open>direction = -1\<close>.
\<close>

fun initial_heap :: "nat \<Rightarrow> event list list \<Rightarrow> entry list" where
  "initial_heap order [] = []"
| "initial_heap order (it # iterables) =
     (case it of
        [] \<Rightarrow> initial_heap (order + 1) iterables
      | value # rest \<Rightarrow> (value, - int order, rest) # initial_heap (order + 1) iterables)"

text \<open>The number of events that the heap still holds, heads included.\<close>

definition pending :: "entry list \<Rightarrow> nat" where
  "pending h = (\<Sum>(v, ord, rest) \<leftarrow> h. 1 + length rest)"

text \<open>All the events that the heap still holds, as a multiset.\<close>

definition contents :: "entry list \<Rightarrow> event multiset" where
  "contents h = (\<Sum>(v, ord, rest) \<leftarrow> h. mset (v # rest))"

text \<open>
  The \<open>while len(h) > 1\<close> loop of \<open>merge\<close> and the code after it; \<open>out\<close> collects what
  the generator yields. Each round yields the head of \<open>h[0]\<close>; when that input has a
  next event the entry is replaced (\<open>_heapreplace_max\<close>), otherwise it is removed
  (\<open>_heappop_max\<close>). The last input left is copied without any comparison.
\<close>

function (domintros) merge_loop :: "entry list \<Rightarrow> event list \<Rightarrow> error + event list" where
  "merge_loop h out =
     (if length h > 1 then
        (case h ! 0 of (value, order, it) \<Rightarrow>
           (case it of
              [] \<Rightarrow> (case heappop_max h of
                       Inl e \<Rightarrow> Inl e
                     | Inr h' \<Rightarrow> merge_loop h' (out @ [value]))
            | nxt # rest \<Rightarrow> (case heapreplace_max h (nxt, order, rest) of
                       Inl e \<Rightarrow> Inl e
                     | Inr h' \<Rightarrow> merge_loop h' (out @ [value]))))
      else (case h of
              [] \<Rightarrow> Inr out
            | (value, order, it) # _ \<Rightarrow> Inr (out @ value # it)))"
  by pat_completeness auto

text \<open>
  \<open>list(heapq.merge(*blocks, reverse=True))\<close>: an exception raised while the generator
  runs is raised by \<open>list\<close>, and nothing is returned.
\<close>

definition heapq_merge_reverse :: "event list list \<Rightarrow> error + event list" where
  "heapq_merge_reverse iterables =
     (case heapify_max (initial_heap 0 iterables) of
        Inl e \<Rightarrow> Inl e
      | Inr h \<Rightarrow> merge_loop h [])"

text \<open>
  \<open>Wiki.multi_user_blocks(user_names)\<close>. The block log that \<open>user_blocks\<close> reads from
  the wiki is the parameter \<open>user_blocks\<close>; the tasks are awaited together and their
  results arrive in the order of \<open>user_names\<close>.
\<close>

definition multi_user_blocks :: "(string \<Rightarrow> event list) \<Rightarrow> string list \<Rightarrow> error + event list" where
  "multi_user_blocks user_blocks user_names =
     (let blocks = map user_blocks user_names
      in heapq_merge_reverse blocks)"

section \<open>Category graphs (cat\_checker/views.py)\<close>

text \<open>
  A \<open>CategoryGraph\<close> object has a \<open>name\<close> and a Python set \<open>parents\<close> of further
  \<open>CategoryGraph\<close> objects. The sets that \<open>_get_categories\<close> builds are finite and hold
  no reference back to a node below them, so a node is a finitely branching tree.
\<close>

datatype CategoryGraph =
  CategoryGraph (name: string) (parents: "CategoryGraph fset")

text \<open>
  \<open>CategoryGraph.__eq__\<close>: \<open>self.name == other.name and self.parents == other.parents\<close>.
  Two Python sets are equal when they have the same size and every element of one is
  found in the other; an element is found through \<open>__hash__\<close> (the name) and then this
  same \<open>__eq__\<close>. On trees that is the equality of finite sets of values.
\<close>

definition CategoryGraph_eq :: "CategoryGraph \<Rightarrow> CategoryGraph \<Rightarrow> bool" where
  "CategoryGraph_eq self other \<longleftrightarrow> name self = name other \<and> parents self = parents other"

text \<open>
  \<open>CategoryGraph.__hash__\<close>: \<open>hash(self.name)\<close>. The interpreter's hash of a string
  is the parameter \<open>hash_str\<close>.
\<close>

definition CategoryGraph_hash :: "(string \<Rightarrow> int) \<Rightarrow> CategoryGraph \<Rightarrow> int" where
  "CategoryGraph_hash hash_str self = hash_str (name self)"

declare fset.map_cong [fundef_cong]

text \<open>
  \<open>_get_categories(page_title, depth)\<close>. The wiki lookup \<open>_get_category_names\<close> is the
  parameter \<open>cats\<close>: the set of category names of a page, any function at all, so a
  category may be its own ancestor. The lookup is made first, whatever \<open>depth\<close> is;
  \<open>depth\<close> only guards the recursive call (\<open>if depth > 1\<close>). The names in one lookup are
  distinct, so \<open>categories.add(g)\<close> adds one node for each name.
\<close>

function (domintros) get_categories ::
  "(string \<Rightarrow> string fset) \<Rightarrow> string \<Rightarrow> int \<Rightarrow> CategoryGraph fset" where
  "get_categories cats page_title depth =
     (\<lambda>name. CategoryGraph name
        (if depth > 1 then get_categories cats name (depth - 1) else {||}))
      |`| cats page_title"
  by pat_completeness auto
termination
  by (relation "measure (\<lambda>(cats, page_title, depth). nat depth)") auto

text \<open>
  The number of calls of \<open>_get_category_names\<close> that one call of \<open>_get_categories\<close>
  makes: its own, and those of the recursive calls.
\<close>

function get_categories_calls :: "(string \<Rightarrow> string fset) \<Rightarrow> string \<Rightarrow> int \<Rightarrow> nat" where
  "get_categories_calls cats page_title depth =
     1 + (\<Sum>name \<in> fset (cats page_title).
            if depth > 1 then get_categories_calls cats name (depth - 1) else 0)"
  by pat_completeness auto
termination
  by (relation "measure (\<lambda>(cats, page_title, depth). nat depth)") auto

declare get_categories.simps [simp del] get_categories_calls.simps [simp del]

section \<open>Python strings\<close>

text \<open>
  Where the code looks at the characters of a string, a Python \<open>str\<close> is the list of
  its Unicode code points, and a literal of the source text is written \<open>ascii ''...''\<close>.
  (Where a string is only compared with other strings, as a user name in a block log
  or a page title is, it is a \<open>string\<close>.)
\<close>

type_synonym codepoint = nat
type_synonym str = "codepoint list"

definition ascii :: "string \<Rightarrow> str" where
  "ascii s = map of_char s"

text \<open>
  The white space of \<open>str.strip()\<close> and of the pattern \<open>\s\<close> on a \<open>str\<close> is the
  interpreter's \<open>Py_UNICODE_ISSPACE\<close>, the same for both: the code points below
  (the table of CPython 3.4 and later, Unicode 6.3 and later).
\<close>

definition isspace :: "codepoint \<Rightarrow> bool" where
  "isspace c \<longleftrightarrow> c \<in> set [0x0009, 0x000A, 0x000B, 0x000C, 0x000D,
                            0x001C, 0x001D, 0x001E, 0x001F,
                            0x0020, 0x0085, 0x00A0, 0x1680,
                            0x2000, 0x2001, 0x2002, 0x2003, 0x2004, 0x2005,
                            0x2006, 0x2007, 0x2008, 0x2009, 0x200A,
                            0x2028, 0x2029, 0x202F, 0x205F, 0x3000]"

definition strip :: "str \<Rightarrow> str" where
  "strip s = rev (dropWhile isspace (rev (dropWhile isspace s)))"




section \<open>SPI case pages (spi/spi\_utils.py)\<close>

text \<open>
  The wikitext parser is a library outside the repository. What \<open>master_name\<close> reads
  of a parsed page is the list that \<open>self.wikicode.filter_templates\<close> ranges over:
  every template invocation of the page, nested ones included, in document order.
  A template has a name (\<open>tname\<close>) and its parameters in order, each a pair of a name
  and a value; the parser names a positional parameter by its position, \<open>1\<close>, \<open>2\<close>, ...
\<close>

record template =
  tname :: str
  params :: "(str \<times> str) list"

record SPICase =
  wikitext :: str
  wikicode :: "template list"

text \<open>\<open>SPICase.__init__\<close>, with the library's \<open>parse\<close> as a parameter.\<close>

definition SPICase_init :: "(str \<Rightarrow> template list) \<Rightarrow> str \<Rightarrow> SPICase" where
  "SPICase_init parse text = \<lparr>wikitext = text, wikicode = parse text\<rparr>"

text \<open>
  The library's \<open>Template.get(name)\<close> followed by \<open>.value\<close>: the last parameter whose
  stripped name is the stripped \<open>name\<close>; \<open>ValueError\<close> when there is none.
\<close>

definition Template_get_value :: "template \<Rightarrow> str \<Rightarrow> error + str" where
  "Template_get_value t nm =
     (case filter (\<lambda>(k, v). strip k = strip nm) (rev (params t)) of
        [] \<Rightarrow> Inl ValueError
      | (k, v) # _ \<Rightarrow> Inr v)"

text \<open>
  \<open>SPICase.master_name\<close>. The test \<open>n.name.matches('SPIarchive notice')\<close> on a template
  name is the parameter \<open>matches\<close>.
\<close>

definition master_name :: "(str \<Rightarrow> bool) \<Rightarrow> SPICase \<Rightarrow> error + str" where
  "master_name matches self =
     (let templates = filter (\<lambda>n. matches (tname n)) (wikicode self);
          n = length templates
      in if n = 1 then Template_get_value (templates ! 0) (ascii ''1'')
         else Inl ArchiveError)"

section \<open>User names (wiki\_interface/wiki.py)\<close>







text \<open>\<open>more_itertools.chunked(xs, n)\<close>, as a list of lists.\<close>

function chunked :: "'a list \<Rightarrow> nat \<Rightarrow> 'a list list" where
  "chunked xs n = (if n = 0 \<or> xs = [] then [] else take n xs # chunked (drop n xs) n)"
  by pat_completeness auto
termination
  by (relation "measure (\<lambda>(xs, n). length xs)") auto





subsection \<open>The normalized form as the specification words it\<close>

text \<open>
  The specification describes the normalized form of a name as: runs of white space
  and underscores collapsed to single spaces, trimmed, first character uppercased.
  In these words: the name is cut at its runs of separators (white space and
  underscores) into words, the words are joined by single spaces, and the first
  character of the result is replaced by its upper-case mapping.
\<close>

definition is_separator :: "codepoint \<Rightarrow> bool" where
  "is_separator c \<longleftrightarrow> isspace c \<or> c = of_char CHR ''_''"

function name_words :: "str \<Rightarrow> str list" where
  "name_words s =
     (let s' = dropWhile is_separator s
      in if s' = [] then []
         else takeWhile (\<lambda>c. \<not> is_separator c) s'
              # name_words (dropWhile (\<lambda>c. \<not> is_separator c) s'))"
  by pat_completeness auto
termination
proof (relation "measure length", simp, goal_cases)
  case (1 s s')
  then obtain c cs where s': "dropWhile is_separator s = c # cs"
    by (cases "dropWhile is_separator s") auto
  then have "\<not> is_separator c"
    using hd_dropWhile [of is_separator s] by auto
  then have "length (dropWhile (\<lambda>c. \<not> is_separator c) (c # cs)) \<le> length cs"
    by (simp add: length_dropWhile_le)
  also have "length cs < length (dropWhile is_separator s)" using s' by simp
  also have "\<dots> \<le> length s" by (rule length_dropWhile_le)
  finally show ?case using 1 s' by simp
qed



declare siftdown_max_loop.simps [simp del] siftup_max_loop.simps [simp del]
  chunked.simps [simp del] name_words.simps [simp del]

section \<open>Example data\<close>

text \<open>A wiki with one page, which lies in one category; the category lies in none.\<close>

definition one_category_wiki :: "string \<Rightarrow> string fset" where
  "one_category_wiki page_title = (if page_title = ''Page'' then {|''Cat''|} else {||})"

text \<open>A cyclic wiki: every page, the category A included, lies in the category A.\<close>

definition self_category_wiki :: "string \<Rightarrow> string fset" where
  "self_category_wiki page_title = {|''A''|}"

text \<open>
  The block logs of two users, newest entry first: A was blocked at time 4 and
  unblocked at time 5; B was blocked at time 2 and unblocked at time 3.
\<close>

definition two_user_block_log :: "string \<Rightarrow> event list" where
  "two_user_block_log user_name =
     (if user_name = ''A''
      then [UnblockEvent ''A'' 5 1, BlockEvent ''A'' 4 2 None False]
      else [UnblockEvent ''B'' 3 3, BlockEvent ''B'' 2 4 None False])"


section \<open>Properties of block events and histories\<close>

lemma is_blocked_at_loop_sorted:
  "sorted (map timestamp es) \<Longrightarrow>
   is_blocked_at_loop b es t =
     (let fs = filter (\<lambda>e. timestamp e \<le> t) es
      in if fs = [] then b else is_BlockEvent (last fs))"
proof (induction es arbitrary: b)
  case Nil
  then show ?case by simp
next
  case (Cons e es)
  show ?case
  proof (cases "timestamp e > t")
    case True
    with Cons.prems have "\<forall>x \<in> set es. \<not> timestamp x \<le> t"
      by auto
    then have "filter (\<lambda>e. timestamp e \<le> t) es = []"
      by (simp add: filter_empty_conv)
    with True show ?thesis by simp
  next
    case False
    from Cons.prems have "sorted (map timestamp es)" by simp
    from Cons.IH [OF this, of "is_BlockEvent e"] False show ?thesis
      by (simp add: Let_def)
  qed
qed

lemma is_blocked_at_history:
  "is_blocked_at (UserBlockHistory_init evs) t =
     (let fs = filter (\<lambda>e. timestamp e \<le> t) (events (UserBlockHistory_init evs))
      in if fs = [] then False else is_BlockEvent (last fs))"
  unfolding is_blocked_at_def
  by (rule is_blocked_at_loop_sorted) (simp add: UserBlockHistory_init_def)


lemma post_init_loop_strict:
  "post_init_loop p es = Inr () \<longleftrightarrow> sorted_wrt (<) (p # map timestamp es)"
proof (induction es arbitrary: p)
  case Nil
  then show ?case by simp
next
  case (Cons e es)
  have kinds: "is_BlockEvent e \<or> is_UnblockEvent e"
    by (cases e) simp_all
  show ?case
  proof (cases "timestamp e \<le> p")
    case True
    with kinds show ?thesis by auto
  next
    case False
    then have lt: "p < timestamp e" by simp
    have "post_init_loop p (e # es) = post_init_loop (timestamp e) es"
      using kinds False by auto
    moreover have "sorted_wrt (<) (p # map timestamp (e # es))
                   \<longleftrightarrow> sorted_wrt (<) (timestamp e # map timestamp es)"
      using lt by (auto intro: less_trans)
    ultimately show ?thesis
      using Cons.IH [of "timestamp e"] by simp
  qed
qed

text \<open>
  What the unreachable validation would answer: it accepts a history exactly when the
  sorted timestamps are strictly increasing and all later than \<open>utc_min\<close>.
\<close>

lemma UserBlockHistory_post_init_accepts:
  "UserBlockHistory_post_init (UserBlockHistory_init evs) = Inr () \<longleftrightarrow>
   sorted_wrt (<) (utc_min # map timestamp (sort_key timestamp evs))"
  by (simp add: UserBlockHistory_post_init_def UserBlockHistory_init_def post_init_loop_strict)

lemma UserBlockHistory_post_init_duplicate:
  "UserBlockHistory_post_init
     (UserBlockHistory_init [BlockEvent ''U'' 5 1 None False, UnblockEvent ''U'' 5 2])
   = Inl ValueError"
  by (simp add: UserBlockHistory_post_init_def UserBlockHistory_init_def utc_min_def)

text \<open>
  Claim C1, at the input \<open>[BlockEvent('U', 5, 1), UnblockEvent('U', 5, 2)]\<close>, two entries
  that share the timestamp 5: the claim asks for a failure, and the construction
  succeeds, keeping both entries. The validation that would reject the input
  (\<open>UserBlockHistory_post_init_duplicate\<close>) is not part of the construction.
\<close>

theorem UserBlockHistory_new_duplicate_timestamps:
  "UserBlockHistory_new [BlockEvent ''U'' 5 1 None False, UnblockEvent ''U'' 5 2]
   = Inr \<lparr>events = [BlockEvent ''U'' 5 1 None False, UnblockEvent ''U'' 5 2]\<rparr>"
  by (simp add: UserBlockHistory_new_def UserBlockHistory_init_def)

text \<open>
  Claim C7: constructing a \<open>BlockEvent\<close> whose expiry is strictly earlier than its
  timestamp fails with \<open>ValueError\<close>; with an expiry equal to or later than the
  timestamp, or with no expiry (an indefinite block), the construction succeeds and
  yields the event with exactly the given fields.
\<close>

theorem BlockEvent_new_expiry:
  "(e < ts \<longrightarrow> BlockEvent_new tg ts i (Some e) rb = Inl ValueError) \<and>
   (ts \<le> e \<longrightarrow> BlockEvent_new tg ts i (Some e) rb = Inr (BlockEvent tg ts i (Some e) rb)) \<and>
   BlockEvent_new tg ts i None rb = Inr (BlockEvent tg ts i None rb)"
  by (simp add: BlockEvent_new_def BlockEvent_post_init_def)

theorem BlockEvent_new_expiry_witness:
  "((5::int) < 10 \<and> BlockEvent_new ''U'' 10 1 (Some 5) False = Inl ValueError) \<and>
   ((10::int) \<le> 10 \<and>
      BlockEvent_new ''U'' 10 1 (Some 10) False = Inr (BlockEvent ''U'' 10 1 (Some 10) False)) \<and>
   ((10::int) \<le> 12 \<and>
      BlockEvent_new ''U'' 10 1 (Some 12) True = Inr (BlockEvent ''U'' 10 1 (Some 12) True)) \<and>
   BlockEvent_new ''U'' 10 1 None False = Inr (BlockEvent ''U'' 10 1 None False)"
  using BlockEvent_new_expiry [of 5 10 "''U''" 1 False]
    BlockEvent_new_expiry [of 10 10 "''U''" 1 False]
    BlockEvent_new_expiry [of 12 10 "''U''" 1 True]
  by simp

text \<open>
  Claim C5. For a history built from any list of events and any query time \<open>t\<close>: the
  entries of the history with timestamp at most \<open>t\<close> decide the answer; with none the
  user is not blocked, otherwise the user is blocked exactly when the last of them is
  a \<open>BlockEvent\<close> (a block or a reblock), so not when it is an \<open>UnblockEvent\<close>. For the
  history of a block at \<open>t1\<close> and an unblock at \<open>t3\<close> with \<open>t1 < t3\<close>, given in either
  order: blocked at \<open>t1\<close>, blocked at every \<open>t2\<close> strictly between, not blocked at \<open>t3\<close>,
  not blocked at any \<open>t0\<close> before \<open>t1\<close>.
\<close>

theorem is_blocked_at_last_entry:
  "is_blocked_at (UserBlockHistory_init evs) t =
     (let fs = filter (\<lambda>e. timestamp e \<le> t) (events (UserBlockHistory_init evs))
      in fs \<noteq> [] \<and> is_BlockEvent (last fs))
   \<and> sorted (map timestamp (events (UserBlockHistory_init evs)))
   \<and> (t1 < t3 \<and> (bu = [BlockEvent tg t1 i ex rb, UnblockEvent tg' t3 j]
                  \<or> bu = [UnblockEvent tg' t3 j, BlockEvent tg t1 i ex rb]) \<longrightarrow>
        is_blocked_at (UserBlockHistory_init bu) t1 \<and>
        (\<forall>t2. t1 < t2 \<and> t2 < t3 \<longrightarrow> is_blocked_at (UserBlockHistory_init bu) t2) \<and>
        \<not> is_blocked_at (UserBlockHistory_init bu) t3 \<and>
        (\<forall>t0. t0 < t1 \<longrightarrow> \<not> is_blocked_at (UserBlockHistory_init bu) t0))"
proof (intro conjI impI)
  show "is_blocked_at (UserBlockHistory_init evs) t =
     (let fs = filter (\<lambda>e. timestamp e \<le> t) (events (UserBlockHistory_init evs))
      in fs \<noteq> [] \<and> is_BlockEvent (last fs))"
    by (simp add: is_blocked_at_history Let_def)
  show "sorted (map timestamp (events (UserBlockHistory_init evs)))"
    by (simp add: UserBlockHistory_init_def)
next
  assume a: "t1 < t3 \<and> (bu = [BlockEvent tg t1 i ex rb, UnblockEvent tg' t3 j]
                  \<or> bu = [UnblockEvent tg' t3 j, BlockEvent tg t1 i ex rb])"
  then have ev: "events (UserBlockHistory_init bu)
                 = [BlockEvent tg t1 i ex rb, UnblockEvent tg' t3 j]"
    by (auto simp: UserBlockHistory_init_def)
  from a show "is_blocked_at (UserBlockHistory_init bu) t1"
    by (simp add: is_blocked_at_def ev)
  from a show "\<forall>t2. t1 < t2 \<and> t2 < t3 \<longrightarrow> is_blocked_at (UserBlockHistory_init bu) t2"
    by (simp add: is_blocked_at_def ev)
  from a show "\<not> is_blocked_at (UserBlockHistory_init bu) t3"
    by (simp add: is_blocked_at_def ev)
  from a show "\<forall>t0. t0 < t1 \<longrightarrow> \<not> is_blocked_at (UserBlockHistory_init bu) t0"
    by (simp add: is_blocked_at_def ev)
qed

theorem is_blocked_at_last_entry_witness:
  "(1::int) < 3 \<and>
   is_blocked_at (UserBlockHistory_init [UnblockEvent ''U'' 3 8, BlockEvent ''U'' 1 7 (Some 2) False]) 1 \<and>
   is_blocked_at (UserBlockHistory_init [UnblockEvent ''U'' 3 8, BlockEvent ''U'' 1 7 (Some 2) False]) 2 \<and>
   \<not> is_blocked_at (UserBlockHistory_init [UnblockEvent ''U'' 3 8, BlockEvent ''U'' 1 7 (Some 2) False]) 3 \<and>
   \<not> is_blocked_at (UserBlockHistory_init [UnblockEvent ''U'' 3 8, BlockEvent ''U'' 1 7 (Some 2) False]) 0"
  using is_blocked_at_last_entry
    [of "[]" 0 1 3 "[UnblockEvent ''U'' 3 8, BlockEvent ''U'' 1 7 (Some 2) False]"
        "''U''" 7 "Some 2" False "''U''" 8]
  by simp

section \<open>Properties of category graphs\<close>

text \<open>
  Claim C2, at the nodes \<open>a\<close> named X without parents and \<open>b\<close> named X with the one
  parent Y: the names are equal, and \<open>a == b\<close> is false.
\<close>

theorem CategoryGraph_eq_same_name_counterexample:
  "name (CategoryGraph ''X'' {||}) = name (CategoryGraph ''X'' {|CategoryGraph ''Y'' {||}|}) \<and>
   \<not> CategoryGraph_eq (CategoryGraph ''X'' {||}) (CategoryGraph ''X'' {|CategoryGraph ''Y'' {||}|})"
  by (auto simp: CategoryGraph_eq_def)

text \<open>
  Claim C2 as amended. The hash of a node depends on its name only: nodes with equal
  names hash identically, whatever their parents. Equality compares the name and
  the parents: two nodes are equal exactly when both agree, so equal nodes hash
  identically, and nodes with one name and different parents are unequal.
\<close>

theorem CategoryGraph_eq_hash:
  "(CategoryGraph_eq a b \<longleftrightarrow> name a = name b \<and> parents a = parents b) \<and>
   (name a = name b \<longrightarrow> CategoryGraph_hash hash_str a = CategoryGraph_hash hash_str b) \<and>
   (CategoryGraph_eq a b \<longrightarrow> CategoryGraph_hash hash_str a = CategoryGraph_hash hash_str b) \<and>
   (name a = name b \<and> parents a \<noteq> parents b \<longrightarrow> \<not> CategoryGraph_eq a b)"
  by (simp add: CategoryGraph_eq_def CategoryGraph_hash_def)

theorem CategoryGraph_eq_hash_witness:
  "name (CategoryGraph ''X'' {||}) = name (CategoryGraph ''X'' {|CategoryGraph ''Y'' {||}|}) \<and>
   parents (CategoryGraph ''X'' {||}) \<noteq> parents (CategoryGraph ''X'' {|CategoryGraph ''Y'' {||}|}) \<and>
   CategoryGraph_hash (\<lambda>s. int (length s)) (CategoryGraph ''X'' {||})
     = CategoryGraph_hash (\<lambda>s. int (length s)) (CategoryGraph ''X'' {|CategoryGraph ''Y'' {||}|}) \<and>
   \<not> CategoryGraph_eq (CategoryGraph ''X'' {||}) (CategoryGraph ''X'' {|CategoryGraph ''Y'' {||}|}) \<and>
   CategoryGraph_eq (CategoryGraph ''X'' {||}) (CategoryGraph ''X'' {||})"
  using CategoryGraph_eq_hash
    [of "CategoryGraph ''X'' {||}" "CategoryGraph ''X'' {|CategoryGraph ''Y'' {||}|}"
        "\<lambda>s. int (length s)"]
    CategoryGraph_eq_hash [of "CategoryGraph ''X'' {||}" "CategoryGraph ''X'' {||}" "\<lambda>s. int (length s)"]
  by auto

text \<open>
  Claim C3, at a page with the single category Cat and \<open>depth = 0\<close>: the result is the
  one node Cat without parents, not the empty set, and one lookup is made.
\<close>

theorem get_categories_depth_0_counterexample:
  "(0::int) \<le> 0 \<and>
   get_categories one_category_wiki ''Page'' 0 = {|CategoryGraph ''Cat'' {||}|} \<and>
   get_categories one_category_wiki ''Page'' 0 \<noteq> {||} \<and>
   get_categories_calls one_category_wiki ''Page'' 0 = 1"
  by (simp add: get_categories.simps get_categories_calls.simps one_category_wiki_def)

text \<open>
  Claim C3 as amended. For every page title and every \<open>depth \<le> 1\<close>, so for every
  \<open>depth \<le> 0\<close>, building the category graph looks the page's categories up once, does
  not recurse, and returns one node for each category name of the page, each with an
  empty parent set; the result is empty exactly when the page has no categories.
\<close>

theorem get_categories_depth_le_1:
  "depth \<le> 1 \<Longrightarrow>
   get_categories cats page_title depth = (\<lambda>name. CategoryGraph name {||}) |`| cats page_title \<and>
   get_categories_calls cats page_title depth = 1 \<and>
   (get_categories cats page_title depth = {||} \<longleftrightarrow> cats page_title = {||})"
  by (simp add: get_categories.simps get_categories_calls.simps)

theorem get_categories_depth_le_1_witness:
  "(0::int) \<le> 1 \<and>
   get_categories (\<lambda>t. {|''Cat''|}) ''Page'' 0 = {|CategoryGraph ''Cat'' {||}|} \<and>
   get_categories_calls (\<lambda>t. {|''Cat''|}) ''Page'' 0 = 1 \<and>
   (- 3::int) \<le> 1 \<and>
   get_categories (\<lambda>t. {|''Cat''|}) ''Page'' (- 3) = {|CategoryGraph ''Cat'' {||}|}"
  using get_categories_depth_le_1 [of 0 "\<lambda>t. {|''Cat''|}" "''Page''"]
    get_categories_depth_le_1 [of "- 3" "\<lambda>t. {|''Cat''|}" "''Page''"]
  by simp

text \<open>On cyclic data.\<close>

lemma get_categories_cyclic_example:
  "get_categories self_category_wiki ''A'' 3
     = {|CategoryGraph ''A'' {|CategoryGraph ''A'' {|CategoryGraph ''A'' {||}|}|}|}"
  "get_categories_calls self_category_wiki ''A'' 3 = 3"
  by (simp_all add: get_categories.simps get_categories_calls.simps self_category_wiki_def)

text \<open>
  The lookups of one call are bounded through the depth alone: when no page has more
  than \<open>n\<close> categories, a call with depth \<open>d\<close> makes at most \<open>1 + n + ... + n^(d-1)\<close>
  lookups (one lookup for \<open>d \<le> 1\<close>).
\<close>

lemma geometric_step: "(\<Sum>i<Suc k. n ^ i) = 1 + n * (\<Sum>i<k. n ^ i)" for n :: nat
  by (simp add: sum.lessThan_Suc_shift sum_distrib_left del: sum.lessThan_Suc)

lemma get_categories_calls_bound:
  assumes fan: "\<forall>page. fcard (cats page) \<le> n"
  shows "get_categories_calls cats page_title depth \<le> (\<Sum>i<nat (max depth 1). n ^ i)"
proof (induction "nat depth" arbitrary: page_title depth rule: less_induct)
  case less
  show ?case
  proof (cases "depth > 1")
    case False
    then have "nat (max depth 1) = Suc 0" by simp
    with False show ?thesis
      by (simp add: get_categories_calls.simps [of cats page_title depth])
  next
    case True
    let ?S = "\<Sum>i<nat (depth - 1). n ^ i"
    from True have k: "nat (max depth 1) = Suc (nat (depth - 1))"
      and k': "nat (max (depth - 1) 1) = nat (depth - 1)" by simp_all
    have each: "get_categories_calls cats nm (depth - 1) \<le> ?S" for nm
      using less [of "depth - 1" nm] True k' by simp
    have "(\<Sum>nm \<in> fset (cats page_title). get_categories_calls cats nm (depth - 1))
          \<le> card (fset (cats page_title)) * ?S"
      using sum_bounded_above [of "fset (cats page_title)"
              "\<lambda>nm. get_categories_calls cats nm (depth - 1)" ?S] each
      by simp
    also have "\<dots> \<le> n * ?S"
      using fan by (simp add: fcard.rep_eq)
    finally have "get_categories_calls cats page_title depth \<le> 1 + n * ?S"
      using True by (simp add: get_categories_calls.simps [of cats page_title depth])
    then show ?thesis
      by (simp only: k geometric_step)
  qed
qed

lemma get_categories_in_domain: "get_categories_dom (cats, page_title, depth)"
proof (induction "nat depth" arbitrary: page_title depth rule: less_induct)
  case less
  show ?case
  proof (rule get_categories.domintros)
    fix z
    assume "1 < depth"
    then have "nat (depth - 1) < nat depth" by simp
    then show "get_categories_dom (cats, z, depth - 1)" by (rule less)
  qed
qed

text \<open>
  Claim C9. For every category lookup \<open>cats\<close>, cyclic or not, every page title and
  every depth, the recursion of \<open>_get_categories\<close> terminates: the call lies in the
  domain of the recursion, that is, the tree of recursive calls below it is
  well-founded. The proof is by induction on \<open>depth\<close> alone and never looks at what
  \<open>cats\<close> answers: a recursive call is made only when \<open>depth > 1\<close>, with \<open>depth - 1\<close>.
  The work is bounded through the depth as well: when no page has more than \<open>n\<close>
  categories, the call makes at most \<open>1 + n + ... + n^(depth-1)\<close> lookups, whether the
  category data is cyclic or not.
\<close>

theorem get_categories_terminates:
  "get_categories_dom (cats, page_title, depth) \<and>
   ((\<forall>page. fcard (cats page) \<le> n) \<longrightarrow>
      get_categories_calls cats page_title depth \<le> (\<Sum>i<nat (max depth 1). n ^ i))"
  by (simp add: get_categories_in_domain get_categories_calls_bound)

text \<open>
  The witness, on the cyclic wiki where the category A is its own parent: the call
  with depth 3 terminates after 3 lookups.
\<close>

theorem get_categories_terminates_witness:
  "get_categories_dom (self_category_wiki, ''A'', 3) \<and>
   get_categories_calls self_category_wiki ''A'' 3 \<le> 3 \<and>
   get_categories self_category_wiki ''A'' 3
     = {|CategoryGraph ''A'' {|CategoryGraph ''A'' {|CategoryGraph ''A'' {||}|}|}|}"
proof -
  have fan: "\<forall>page. fcard (self_category_wiki page) \<le> 1"
    by (simp add: self_category_wiki_def fcard_finsert_if)
  have three: "(\<Sum>i<nat (max 3 1). (1::nat) ^ i) = 3" by simp
  from get_categories_terminates [of self_category_wiki "''A''" 3 1] fan three
  show ?thesis
    by (simp add: get_categories.simps self_category_wiki_def)
qed

section \<open>Properties of the merge\<close>

text \<open>The sift operations permute the heap.\<close>


lemma mset_update_update:
  assumes "i < length xs" "j < length xs" "i \<noteq> j"
  shows "mset (xs[i := xs ! j, j := v]) = mset (xs[i := v])"
proof -
  have "mset (xs[i := xs ! j, j := v])
        = add_mset v (mset (xs[i := xs ! j]) - {#xs ! j#})"
    using assms by (simp add: mset_update)
  also have "mset (xs[i := xs ! j]) = add_mset (xs ! j) (mset xs - {#xs ! i#})"
    using assms by (simp add: mset_update)
  finally show ?thesis
    using assms by (simp add: mset_update)
qed

lemma siftdown_max_loop_mset:
  "pos < length heap \<Longrightarrow> siftdown_max_loop heap startpos pos newitem = Inr h' \<Longrightarrow>
   mset h' = mset (heap[pos := newitem])"
proof (induction heap startpos pos newitem rule: siftdown_max_loop.induct)
  case (1 heap startpos pos newitem)
  note unf = siftdown_max_loop.simps [of heap startpos pos newitem]
  show ?case
  proof (cases "pos > startpos")
    case False
    with "1.prems" show ?thesis by (simp add: unf)
  next
    case True
    let ?pp = "(pos - 1) div 2"
    from True have pp: "?pp < pos" by simp
    from "1.prems"(2) True obtain b where b: "entry_lt (heap ! ?pp) newitem = Inr b"
      by (auto simp: unf Let_def split: sum.splits)
    show ?thesis
    proof (cases b)
      case False
      with "1.prems" True b show ?thesis by (simp add: unf Let_def)
    next
      case True
      with "1.prems"(2) \<open>pos > startpos\<close> b
      have r: "siftdown_max_loop (heap[pos := heap ! ?pp]) startpos ?pp newitem = Inr h'"
        by (simp add: unf Let_def)
      have "mset h' = mset (heap[pos := heap ! ?pp, ?pp := newitem])"
        using "1.IH" [OF \<open>pos > startpos\<close> refl refl b True _ r] pp "1.prems"(1) by simp
      also have "\<dots> = mset (heap[pos := newitem])"
        using pp "1.prems"(1) by (intro mset_update_update) auto
      finally show ?thesis .
    qed
  qed
qed

lemma larger_child_bounds:
  "larger_child heap childpos = Inr c \<Longrightarrow> childpos < length heap \<Longrightarrow>
   childpos \<le> c \<and> c < length heap"
  by (auto simp: larger_child_def Let_def split: if_splits sum.splits)

lemma siftup_max_loop_mset:
  "pos < length heap \<Longrightarrow> pos < childpos \<Longrightarrow>
   siftup_max_loop heap pos childpos = Inr (h', pos') \<Longrightarrow>
   length h' = length heap \<and> pos' < length heap \<and> mset (h'[pos' := x]) = mset (heap[pos := x])"
proof (induction heap pos childpos rule: siftup_max_loop.induct)
  case (1 heap pos childpos)
  note unf = siftup_max_loop.simps [of heap pos childpos]
  show ?case
  proof (cases "childpos < length heap")
    case False
    with "1.prems" show ?thesis by (simp add: unf)
  next
    case True
    with "1.prems"(3) obtain c where c: "larger_child heap childpos = Inr c"
      by (auto simp: unf split: sum.splits)
    from larger_child_bounds [OF c True] have cb: "childpos \<le> c" "c < length heap" by auto
    from "1.prems"(3) True c
    have r: "siftup_max_loop (heap[pos := heap ! c]) c (2 * c + 1) = Inr (h', pos')"
      by (simp add: unf)
    have ih: "length h' = length (heap[pos := heap ! c]) \<and> pos' < length (heap[pos := heap ! c])
              \<and> mset (h'[pos' := x]) = mset (heap[pos := heap ! c, c := x])"
      using "1.IH" [OF True c _ _ r] cb by simp
    have "mset (heap[pos := heap ! c, c := x]) = mset (heap[pos := x])"
      using cb "1.prems"(1,2) by (intro mset_update_update) auto
    with ih show ?thesis by simp
  qed
qed

lemma siftup_max_mset:
  assumes "pos < length heap" "siftup_max heap pos = Inr h'"
  shows "mset h' = mset heap"
proof -
  from assms(2) obtain h1 p1 where
    l: "siftup_max_loop heap pos (2 * pos + 1) = Inr (h1, p1)" and
    d: "siftdown_max (h1[p1 := heap ! pos]) pos p1 = Inr h'"
    by (auto simp: siftup_max_def Let_def split: sum.splits prod.splits)
  from siftup_max_loop_mset [OF assms(1) _ l, of "heap ! pos"]
  have b: "length h1 = length heap" "p1 < length heap"
    "mset (h1[p1 := heap ! pos]) = mset heap" by simp_all
  from d have "siftdown_max_loop (h1[p1 := heap ! pos]) pos p1 (heap ! pos) = Inr h'"
    using b by (simp add: siftdown_max_def)
  from siftdown_max_loop_mset [OF _ this] b show ?thesis by simp
qed

lemma pending_mset: "mset h = mset h' \<Longrightarrow> pending h = pending h'"
proof -
  assume "mset h = mset h'"
  then have "mset (map (\<lambda>(v, ord, rest). 1 + length rest) h)
           = mset (map (\<lambda>(v, ord, rest). 1 + length rest) h')"
    by simp
  then have "sum_mset (mset (map (\<lambda>(v, ord, rest). 1 + length rest) h))
           = sum_mset (mset (map (\<lambda>(v, ord, rest). 1 + length rest) h'))"
    by (rule arg_cong)
  then show ?thesis
    unfolding pending_def by (simp only: sum_mset_sum_list)
qed

lemma pending_heapreplace_max:
  assumes "h \<noteq> []" "h ! 0 = (value, order, nxt # rest)"
    "heapreplace_max h (nxt, order, rest) = Inr h'"
  shows "pending h' < pending h"
proof -
  from assms(1) obtain tl where h: "h = (value, order, nxt # rest) # tl"
    using assms(2) by (cases h) auto
  from assms(1,3) have "siftup_max (h[0 := (nxt, order, rest)]) 0 = Inr h'"
    by (simp add: heapreplace_max_def)
  then have "mset h' = mset (h[0 := (nxt, order, rest)])"
    using assms(1) by (intro siftup_max_mset) auto
  then have "pending h' = pending (h[0 := (nxt, order, rest)])"
    by (rule pending_mset)
  then show ?thesis by (simp add: h pending_def)
qed

lemma pending_heappop_max:
  assumes "length h > 1" "heappop_max h = Inr h'"
  shows "pending h' < pending h"
proof -
  from assms(1) obtain x y ys where h: "h = x # ys @ [y]"
  proof (cases h)
    case Nil
    with assms(1) show ?thesis by simp
  next
    case (Cons x t)
    with assms(1) have "t \<noteq> []" by auto
    then have "t = butlast t @ [last t]" by simp
    with Cons that show ?thesis by metis
  qed
  from assms(2) have "siftup_max (y # ys) 0 = Inr h'"
    by (simp add: heappop_max_def h butlast_append)
  then have "mset h' = mset (y # ys)"
    by (intro siftup_max_mset) auto
  then have "pending h' = pending (y # ys)" by (rule pending_mset)
  then show ?thesis by (cases x) (simp add: h pending_def)
qed

termination merge_loop
proof (relation "measure (\<lambda>(h, out). pending h)")
  show "wf (measure (\<lambda>(h, out). pending h))" by simp
next
  fix h :: "entry list" and out x1 x2 x1a x2a x2b
  assume "1 < length h" "(x1, x2) = h ! 0" "(x1a, x2a) = x2" "x2a = []" "heappop_max h = Inr x2b"
  then show "((x2b, out @ [x1]), h, out) \<in> measure (\<lambda>(h, out). pending h)"
    by (simp add: pending_heappop_max)
next
  fix h :: "entry list" and out x1 x2 x1a x2a x21 x22 x2b
  assume "1 < length h" "(x1, x2) = h ! 0" "(x1a, x2a) = x2" "x2a = x21 # x22"
    "heapreplace_max h (x21, x1a, x22) = Inr x2b"
  then have "h \<noteq> []" "h ! 0 = (x1, x1a, x21 # x22)" by auto
  from pending_heapreplace_max [OF this \<open>heapreplace_max h (x21, x1a, x22) = Inr x2b\<close>]
  show "((x2b, out @ [x1]), h, out) \<in> measure (\<lambda>(h, out). pending h)"
    by simp
qed

declare merge_loop.simps [simp del]

lemma heapify_max_loop_mset:
  "\<forall>i \<in> set is. i < length x \<Longrightarrow> heapify_max_loop x is = Inr x' \<Longrightarrow> mset x' = mset x"
proof (induction "is" arbitrary: x)
  case Nil
  then show ?case by simp
next
  case (Cons i "is")
  from Cons.prems(2) obtain x1 where
    s: "siftup_max x i = Inr x1" and r: "heapify_max_loop x1 is = Inr x'"
    by (auto split: sum.splits)
  from Cons.prems(1) s have m: "mset x1 = mset x"
    by (intro siftup_max_mset) auto
  then have "length x1 = length x" by (rule mset_eq_length)
  with Cons.prems(1) have "\<forall>i \<in> set is. i < length x1" by simp
  from Cons.IH [OF this r] m show ?case by simp
qed

lemma heapify_max_mset: "heapify_max x = Inr x' \<Longrightarrow> mset x' = mset x"
  unfolding heapify_max_def by (rule heapify_max_loop_mset) auto

lemma contents_mset: "mset h = mset h' \<Longrightarrow> contents h = contents h'"
proof -
  assume "mset h = mset h'"
  then have "mset (map (\<lambda>(v, ord, rest). mset (v # rest)) h)
           = mset (map (\<lambda>(v, ord, rest). mset (v # rest)) h')"
    by simp
  then have "sum_mset (mset (map (\<lambda>(v, ord, rest). mset (v # rest)) h))
           = sum_mset (mset (map (\<lambda>(v, ord, rest). mset (v # rest)) h'))"
    by (rule arg_cong)
  then show ?thesis
    unfolding contents_def by (simp only: sum_mset_sum_list)
qed

lemma contents_initial_heap: "contents (initial_heap k its) = mset (concat its)"
  by (induction its arbitrary: k) (auto simp: contents_def split: list.splits)

lemma contents_heapreplace_max:
  assumes "h \<noteq> []" "h ! 0 = (value, order, nxt # rest)"
    "heapreplace_max h (nxt, order, rest) = Inr h'"
  shows "add_mset value (contents h') = contents h"
proof -
  from assms(1) obtain tl where h: "h = (value, order, nxt # rest) # tl"
    using assms(2) by (cases h) auto
  from assms(1,3) have "siftup_max (h[0 := (nxt, order, rest)]) 0 = Inr h'"
    by (simp add: heapreplace_max_def)
  then have "mset h' = mset (h[0 := (nxt, order, rest)])"
    using assms(1) by (intro siftup_max_mset) auto
  then have "contents h' = contents (h[0 := (nxt, order, rest)])"
    by (rule contents_mset)
  then show ?thesis by (simp add: h contents_def)
qed

lemma contents_heappop_max:
  assumes "length h > 1" "h ! 0 = (value, order, [])" "heappop_max h = Inr h'"
  shows "add_mset value (contents h') = contents h"
proof -
  from assms(1) obtain x y ys where h: "h = x # ys @ [y]"
  proof (cases h)
    case Nil
    with assms(1) show ?thesis by simp
  next
    case (Cons x t)
    with assms(1) have "t \<noteq> []" by auto
    then have "t = butlast t @ [last t]" by simp
    with Cons that show ?thesis by metis
  qed
  from assms(2) have x: "x = (value, order, [])" by (simp add: h)
  from assms(3) have "siftup_max (y # ys) 0 = Inr h'"
    by (simp add: heappop_max_def h butlast_append)
  then have "mset h' = mset (y # ys)"
    by (intro siftup_max_mset) auto
  then have "contents h' = contents (y # ys)" by (rule contents_mset)
  then show ?thesis by (cases y) (simp add: h x contents_def)
qed

lemma merge_loop_mset:
  "merge_loop h out = Inr res \<Longrightarrow> mset res = mset out + contents h"
proof (induction h out rule: merge_loop.induct)
  case (1 h out)
  note unf = merge_loop.simps [of h out]
  show ?case
  proof (cases "length h > 1")
    case False
    with "1.prems" show ?thesis
      by (auto simp: unf contents_def split: list.splits)
  next
    case True
    obtain "value" order it where h0: "h ! 0 = (value, order, it)"
      by (cases "h ! 0") auto
    show ?thesis
    proof (cases it)
      case Nil
      with "1.prems" True h0 obtain h' where
        p: "heappop_max h = Inr h'" and r: "merge_loop h' (out @ [value]) = Inr res"
        by (auto simp: unf split: sum.splits)
      from "1.IH"(1) [OF True h0 [symmetric] refl Nil p r]
      have "mset res = mset (out @ [value]) + contents h'" .
      with contents_heappop_max [OF True _ p] h0 Nil show ?thesis by auto
    next
      case (Cons nxt rest)
      with "1.prems" True h0 obtain h' where
        p: "heapreplace_max h (nxt, order, rest) = Inr h'" and
        r: "merge_loop h' (out @ [value]) = Inr res"
        by (auto simp: unf split: sum.splits)
      from "1.IH"(2) [OF True h0 [symmetric] refl Cons p r]
      have "mset res = mset (out @ [value]) + contents h'" .
      moreover from True have "h \<noteq> []" by auto
      ultimately show ?thesis
        using contents_heapreplace_max [OF _ _ p] h0 Cons by auto
    qed
  qed
qed

text \<open>
  When the merge returns, it returns a rearrangement of all the events of all users.
\<close>

lemma multi_user_blocks_mset:
  assumes "multi_user_blocks user_blocks user_names = Inr res"
  shows "mset res = mset (concat (map user_blocks user_names))"
proof -
  from assms obtain h where
    hp: "heapify_max (initial_heap 0 (map user_blocks user_names)) = Inr h" and
    m: "merge_loop h [] = Inr res"
    by (auto simp: multi_user_blocks_def heapq_merge_reverse_def split: sum.splits)
  from merge_loop_mset [OF m] have "mset res = contents h" by simp
  also have "\<dots> = contents (initial_heap 0 (map user_blocks user_names))"
    by (rule contents_mset) (rule heapify_max_mset [OF hp])
  finally show ?thesis by (simp add: contents_initial_heap)
qed

text \<open>One user: the log is returned as it is, and nothing is compared.\<close>

lemma multi_user_blocks_single:
  "multi_user_blocks user_blocks [u] = Inr (user_blocks u)"
  by (cases "user_blocks u")
     (simp_all add: multi_user_blocks_def heapq_merge_reverse_def heapify_max_def
        merge_loop.simps)

text \<open>
  Two users whose logs hold blocks only: user A blocked at 5 and at 2, user B at 3.
\<close>

lemma multi_user_blocks_blocks_only_example:
  "multi_user_blocks
     (\<lambda>u. if u = ''A'' then [BlockEvent ''A'' 5 1 None False, BlockEvent ''A'' 2 2 None False]
           else [BlockEvent ''B'' 3 3 None False])
     [''A'', ''B'']
   = Inr [BlockEvent ''A'' 5 1 None False, BlockEvent ''B'' 3 3 None False,
          BlockEvent ''A'' 2 2 None False]"
  by (simp add: multi_user_blocks_def heapq_merge_reverse_def heapify_max_def
        siftup_max_def siftup_max_loop.simps larger_child_def siftdown_max_def
        siftdown_max_loop.simps merge_loop.simps heapreplace_max_def heappop_max_def)

text \<open>
  Claim C4, at the two users of \<open>two_user_block_log\<close>, each blocked once and unblocked
  later; both logs are newest first. The claim asks for the merged sequence. Building
  the heap compares the entries of the two users, whose heads are both
  \<open>UnblockEvent\<close>s; whichever is the left operand of \<open><\<close>, it has no \<open>__lt__\<close>, and the
  call raises \<open>TypeError\<close>.
\<close>

theorem multi_user_blocks_unblock_raises:
  "multi_user_blocks two_user_block_log [''A'', ''B''] = Inl TypeError"
  by (simp add: multi_user_blocks_def heapq_merge_reverse_def heapify_max_def
        siftup_max_def siftup_max_loop.simps larger_child_def siftdown_max_def
        siftdown_max_loop.simps two_user_block_log_def)

section \<open>Block expiry and the point-in-time query\<close>

text \<open>What \<open>is_blocked_at\<close> reads of an event: its class and its timestamp.\<close>

lemma is_blocked_at_loop_kinds:
  "map (\<lambda>e. (is_BlockEvent e, timestamp e)) es = map (\<lambda>e. (is_BlockEvent e, timestamp e)) es' \<Longrightarrow>
   is_blocked_at_loop b es t = is_blocked_at_loop b es' t"
proof (induction es arbitrary: es' b)
  case Nil
  then show ?case by simp
next
  case (Cons e es)
  from Cons.prems obtain e' es'' where es': "es' = e' # es''" by (cases es') auto
  with Cons.prems have
    hd: "is_BlockEvent e = is_BlockEvent e'" "timestamp e = timestamp e'" and
    tl: "map (\<lambda>e. (is_BlockEvent e, timestamp e)) es = map (\<lambda>e. (is_BlockEvent e, timestamp e)) es''"
    by auto
  from Cons.IH [OF tl] hd show ?case by (simp add: es')
qed

text \<open>
  The answer does not change when the expiry of every block is replaced.
\<close>

lemma is_blocked_at_ignores_expiry:
  "is_blocked_at \<lparr>events = map (set_expiry f) es\<rparr> t = is_blocked_at \<lparr>events = es\<rparr> t"
proof -
  have "map (\<lambda>e. (is_BlockEvent e, timestamp e)) (map (set_expiry f) es)
        = map (\<lambda>e. (is_BlockEvent e, timestamp e)) es"
  proof (induction es)
    case Nil
    then show ?case by simp
  next
    case (Cons e es)
    then show ?case by (cases e) simp_all
  qed
  then have "is_blocked_at_loop False (map (set_expiry f) es) t = is_blocked_at_loop False es t"
    by (rule is_blocked_at_loop_kinds)
  then show ?thesis
    by (simp add: is_blocked_at_def)
qed

text \<open>
  On a history that meets what \<open>__post_init__\<close> asks for (strictly increasing
  timestamps), a block whose expiry has passed is reported until an unblock with a
  later timestamp: if no \<open>UnblockEvent\<close> has a timestamp after the block's and at most
  \<open>t\<close>, the user is blocked at \<open>t\<close>.
\<close>

lemma sorted_le_last: "sorted xs \<Longrightarrow> x \<in> set xs \<Longrightarrow> x \<le> last xs"
  for xs :: "int list"
  by (induction xs) auto

lemma is_blocked_at_expired_block:
  assumes strict: "sorted_wrt (<) (map timestamp (events h))"
    and b: "BlockEvent tg t1 i (Some e) rb \<in> set (events h)"
    and t: "t1 \<le> t"
    and no_unblock: "\<forall>u \<in> set (events h). is_UnblockEvent u \<longrightarrow> \<not> (t1 < timestamp u \<and> timestamp u \<le> t)"
  shows "is_blocked_at h t"
proof -
  let ?b = "BlockEvent tg t1 i (Some e) rb"
  let ?fs = "filter (\<lambda>e. timestamp e \<le> t) (events h)"
  from strict have sorted: "sorted (map timestamp (events h))"
    and dist: "distinct (map timestamp (events h))"
    by (simp_all add: strict_sorted_iff)
  from b t have bfs: "?b \<in> set ?fs" by simp
  have ne: "?fs \<noteq> []"
  proof
    assume "?fs = []"
    then have "\<forall>x \<in> set (events h). \<not> timestamp x \<le> t"
      by (simp only: filter_empty_conv)
    from bspec [OF this b] t show False by simp
  qed
  have "last ?fs \<in> set ?fs" using ne by (rule last_in_set)
  then have lt: "timestamp (last ?fs) \<le> t" and lh: "last ?fs \<in> set (events h)" by auto
  have sfs: "sorted (map timestamp ?fs)"
    using sorted by (simp add: sorted_wrt_map sorted_wrt_filter)
  from bfs have "timestamp ?b \<in> timestamp ` set ?fs" by (rule imageI)
  then have "timestamp ?b \<in> set (map timestamp ?fs)" by (simp only: set_map)
  from sorted_le_last [OF sfs this] have "timestamp ?b \<le> last (map timestamp ?fs)" .
  with ne have ge: "t1 \<le> timestamp (last ?fs)"
    by (simp add: last_map)
  have "is_BlockEvent (last ?fs)"
  proof (cases "timestamp (last ?fs) = t1")
    case True
    from dist have "inj_on timestamp (set (events h))"
      by (simp add: distinct_map)
    moreover from True have "timestamp (last ?fs) = timestamp ?b" by simp
    ultimately have "last ?fs = ?b" using lh b by (rule inj_onD)
    then show ?thesis by (simp only: event.disc)
  next
    case False
    with ge lt no_unblock lh have "\<not> is_UnblockEvent (last ?fs)" by auto
    then show ?thesis by (cases "last ?fs") auto
  qed
  with ne show ?thesis
    using is_blocked_at_loop_sorted [OF sorted, of False t]
    by (simp add: is_blocked_at_def Let_def)
qed

text \<open>
  Claim C10, at the history built from a block at time 5 that expires at 6 and an
  unblock with the same timestamp 5, queried at time 10. The construction succeeds and
  keeps both entries in this order. No \<open>UnblockEvent\<close> has a timestamp later than the
  block's, so the claim reports the user as blocked at 10; \<open>is_blocked_at\<close> answers
  not blocked, the unblock being the last entry read.
\<close>

theorem is_blocked_at_same_timestamp_unblock:
  "UserBlockHistory_new [BlockEvent ''U'' 5 1 (Some 6) False, UnblockEvent ''U'' 5 2]
     = Inr \<lparr>events = [BlockEvent ''U'' 5 1 (Some 6) False, UnblockEvent ''U'' 5 2]\<rparr> \<and>
   \<not> is_blocked_at \<lparr>events = [BlockEvent ''U'' 5 1 (Some 6) False, UnblockEvent ''U'' 5 2]\<rparr> 10 \<and>
   \<not> (5 < timestamp (UnblockEvent ''U'' 5 2))"
  by (simp add: UserBlockHistory_new_def UserBlockHistory_init_def is_blocked_at_def)

section \<open>Properties of master\_name\<close>

lemma ascii_eq_iff: "ascii a = ascii b \<longleftrightarrow> a = b"
  by (simp add: ascii_def inj_def)



lemma strip_1: "strip (ascii ''1'') = ascii ''1''"
  by (simp add: strip_def isspace_def ascii_def)

lemma Template_get_value_last:
  assumes "params t = pre @ (k, v) # post" "strip k = strip nm"
    "\<forall>(k', w) \<in> set post. strip k' \<noteq> strip nm"
  shows "Template_get_value t nm = Inr v"
proof -
  from assms(3) have "filter (\<lambda>(k, v). strip k = strip nm) (rev post) = []"
    by (auto simp: filter_empty_conv)
  with assms(1,2) show ?thesis
    by (simp add: Template_get_value_def)
qed

lemma Template_get_value_none:
  assumes "\<forall>(k, w) \<in> set (params t). strip k \<noteq> strip nm"
  shows "Template_get_value t nm = Inl ValueError"
proof -
  from assms have "filter (\<lambda>(k, v). strip k = strip nm) (rev (params t)) = []"
    by (auto simp: filter_empty_conv)
  then show ?thesis
    by (simp add: Template_get_value_def)
qed

text \<open>
  Claim C6, at the page \<open>{{SPIarchive notice}}\<close>: one recognized template, which has
  no argument. The count is exactly one, and the call neither returns an argument nor
  fails with \<open>ArchiveError\<close>: the library's lookup of parameter 1 raises \<open>ValueError\<close>.
\<close>

theorem master_name_no_argument_counterexample:
  "length (filter ((=) (ascii ''SPIarchive notice''))
     (map tname (wikicode \<lparr>wikitext = ascii ''{{SPIarchive notice}}'',
                           wikicode = [\<lparr>tname = ascii ''SPIarchive notice'', params = []\<rparr>]\<rparr>))) = 1 \<and>
   master_name ((=) (ascii ''SPIarchive notice''))
     \<lparr>wikitext = ascii ''{{SPIarchive notice}}'',
      wikicode = [\<lparr>tname = ascii ''SPIarchive notice'', params = []\<rparr>]\<rparr>
   = Inl ValueError"
  by (simp add: master_name_def Template_get_value_def)

text \<open>
  Claim C6 as amended. For every parsed case page: when the number of recognized
  \<open>SPIarchive notice\<close> templates is not exactly one (none, or two or more),
  \<open>master_name\<close> fails with \<open>ArchiveError\<close>. When there is exactly one, the result is
  the library's lookup of that template's parameter 1: the value, verbatim, of the
  last parameter named 1, which is the first positional argument unless a later
  parameter is named 1 as well; when the template has no parameter named 1, the call
  fails with \<open>ValueError\<close>.
\<close>

theorem master_name_spec:
  "(length (filter (\<lambda>n. matches (tname n)) (wikicode self)) \<noteq> 1 \<longrightarrow>
      master_name matches self = Inl ArchiveError) \<and>
   (filter (\<lambda>n. matches (tname n)) (wikicode self) = [t] \<longrightarrow>
      master_name matches self = Template_get_value t (ascii ''1'') \<and>
      (params t = (ascii ''1'', v) # ps \<and> (\<forall>(k, w) \<in> set ps. strip k \<noteq> ascii ''1'') \<longrightarrow>
         master_name matches self = Inr v) \<and>
      (params t = pre @ (k', v') # post \<and> strip k' = ascii ''1'' \<and>
         (\<forall>(k, w) \<in> set post. strip k \<noteq> ascii ''1'') \<longrightarrow>
         master_name matches self = Inr v') \<and>
      ((\<forall>(k, w) \<in> set (params t). strip k \<noteq> ascii ''1'') \<longrightarrow>
         master_name matches self = Inl ValueError))"
proof (intro conjI impI)
  assume "length (filter (\<lambda>n. matches (tname n)) (wikicode self)) \<noteq> 1"
  then show "master_name matches self = Inl ArchiveError"
    by (simp add: master_name_def Let_def)
next
  assume one: "filter (\<lambda>n. matches (tname n)) (wikicode self) = [t]"
  then show m: "master_name matches self = Template_get_value t (ascii ''1'')"
    by (simp add: master_name_def Let_def)
  {
    assume "params t = (ascii ''1'', v) # ps \<and> (\<forall>(k, w) \<in> set ps. strip k \<noteq> ascii ''1'')"
    then have "Template_get_value t (ascii ''1'') = Inr v"
      using Template_get_value_last [of t "[]" "ascii ''1''" v ps "ascii ''1''"]
      by (simp add: strip_1)
    with m show "master_name matches self = Inr v" by simp
  }
  {
    assume "params t = pre @ (k', v') # post \<and> strip k' = ascii ''1'' \<and>
         (\<forall>(k, w) \<in> set post. strip k \<noteq> ascii ''1'')"
    then have "Template_get_value t (ascii ''1'') = Inr v'"
      using Template_get_value_last [of t pre k' v' post "ascii ''1''"] by (simp add: strip_1)
    with m show "master_name matches self = Inr v'" by simp
  }
  {
    assume "\<forall>(k, w) \<in> set (params t). strip k \<noteq> ascii ''1''"
    then have "Template_get_value t (ascii ''1'') = Inl ValueError"
      using Template_get_value_none [of t "ascii ''1''"] by (simp add: strip_1)
    with m show "master_name matches self = Inl ValueError" by simp
  }
qed

text \<open>
  The witness: the page \<open>{{SPIarchive notice|ExampleUser}}\<close> yields \<open>ExampleUser\<close>; a
  page without the template, and a page with two of them, fail with \<open>ArchiveError\<close>.
\<close>

theorem master_name_spec_witness:
  "master_name ((=) (ascii ''SPIarchive notice''))
     \<lparr>wikitext = ascii ''{{SPIarchive notice|ExampleUser}}'',
      wikicode = [\<lparr>tname = ascii ''SPIarchive notice'',
                   params = [(ascii ''1'', ascii ''ExampleUser'')]\<rparr>]\<rparr>
     = Inr (ascii ''ExampleUser'') \<and>
   master_name ((=) (ascii ''SPIarchive notice''))
     \<lparr>wikitext = ascii ''{{Other|x}}'',
      wikicode = [\<lparr>tname = ascii ''Other'', params = [(ascii ''1'', ascii ''x'')]\<rparr>]\<rparr>
     = Inl ArchiveError \<and>
   master_name ((=) (ascii ''SPIarchive notice''))
     \<lparr>wikitext = ascii ''{{SPIarchive notice|A}}{{SPIarchive notice|B}}'',
      wikicode = [\<lparr>tname = ascii ''SPIarchive notice'', params = [(ascii ''1'', ascii ''A'')]\<rparr>,
                  \<lparr>tname = ascii ''SPIarchive notice'', params = [(ascii ''1'', ascii ''B'')]\<rparr>]\<rparr>
     = Inl ArchiveError \<and>
   master_name ((=) (ascii ''SPIarchive notice''))
     \<lparr>wikitext = ascii ''{{SPIarchive notice|A|1=B}}'',
      wikicode = [\<lparr>tname = ascii ''SPIarchive notice'',
                   params = [(ascii ''1'', ascii ''A''), (ascii ''1'', ascii ''B'')]\<rparr>]\<rparr>
     = Inr (ascii ''B'') \<and>
   master_name ((=) (ascii ''SPIarchive notice''))
     \<lparr>wikitext = ascii ''{{SPIarchive notice}}'',
      wikicode = [\<lparr>tname = ascii ''SPIarchive notice'', params = []\<rparr>]\<rparr>
     = Inl ValueError"
  using
    master_name_spec [of "(=) (ascii ''SPIarchive notice'')"
      "\<lparr>wikitext = ascii ''{{SPIarchive notice|ExampleUser}}'',
        wikicode = [\<lparr>tname = ascii ''SPIarchive notice'',
                     params = [(ascii ''1'', ascii ''ExampleUser'')]\<rparr>]\<rparr>"
      "\<lparr>tname = ascii ''SPIarchive notice'', params = [(ascii ''1'', ascii ''ExampleUser'')]\<rparr>"
      "ascii ''ExampleUser''" "[]" "[]" "ascii ''1''" "ascii ''ExampleUser''" "[]"]
    master_name_spec [of "(=) (ascii ''SPIarchive notice'')"
      "\<lparr>wikitext = ascii ''{{Other|x}}'',
        wikicode = [\<lparr>tname = ascii ''Other'', params = [(ascii ''1'', ascii ''x'')]\<rparr>]\<rparr>"]
    master_name_spec [of "(=) (ascii ''SPIarchive notice'')"
      "\<lparr>wikitext = ascii ''{{SPIarchive notice|A}}{{SPIarchive notice|B}}'',
        wikicode = [\<lparr>tname = ascii ''SPIarchive notice'', params = [(ascii ''1'', ascii ''A'')]\<rparr>,
                    \<lparr>tname = ascii ''SPIarchive notice'', params = [(ascii ''1'', ascii ''B'')]\<rparr>]\<rparr>"]
    master_name_spec [of "(=) (ascii ''SPIarchive notice'')"
      "\<lparr>wikitext = ascii ''{{SPIarchive notice|A|1=B}}'',
        wikicode = [\<lparr>tname = ascii ''SPIarchive notice'',
                     params = [(ascii ''1'', ascii ''A''), (ascii ''1'', ascii ''B'')]\<rparr>]\<rparr>"
      "\<lparr>tname = ascii ''SPIarchive notice'',
        params = [(ascii ''1'', ascii ''A''), (ascii ''1'', ascii ''B'')]\<rparr>"
      "ascii ''A''" "[(ascii ''1'', ascii ''B'')]" "[(ascii ''1'', ascii ''A'')]" "ascii ''1''"
      "ascii ''B''" "[]"]
    master_name_spec [of "(=) (ascii ''SPIarchive notice'')"
      "\<lparr>wikitext = ascii ''{{SPIarchive notice}}'',
        wikicode = [\<lparr>tname = ascii ''SPIarchive notice'', params = []\<rparr>]\<rparr>"
      "\<lparr>tname = ascii ''SPIarchive notice'', params = []\<rparr>"]
  by (simp add: strip_1 Template_get_value_def ascii_eq_iff)

section \<open>Properties of the normalized form\<close>
























section \<open>Properties of validate\_usernames\<close>
















end
